theory Spec2Isabelle
  imports Main
begin

section \<open>Python strings\<close>

text \<open>
  A Python \<open>str\<close> is a sequence of Unicode code points. A code point is modelled as a
  natural number and a string as a list of them; \<open>py\<close> turns an ASCII literal of the
  theory into such a string.
\<close>

type_synonym pychar = nat
type_synonym pystr = "pychar list"

definition py :: "string \<Rightarrow> pystr" where
  "py s = map of_char s"

definition LF :: pychar where "LF = 0x0A"
definition CR :: pychar where "CR = 0x0D"

text \<open>
  \<open>Py_UNICODE_ISSPACE\<close>: the characters that \<open>str.strip()\<close> removes and that \<open>\s\<close>
  matches in a \<open>str\<close> pattern.
\<close>

definition isspace :: "pychar \<Rightarrow> bool" where
  "isspace c \<longleftrightarrow>
     (0x09 \<le> c \<and> c \<le> 0x0D) \<or> (0x1C \<le> c \<and> c \<le> 0x20) \<or> c = 0x85 \<or> c = 0xA0 \<or>
     c = 0x1680 \<or> (0x2000 \<le> c \<and> c \<le> 0x200A) \<or> c = 0x2028 \<or> c = 0x2029 \<or>
     c = 0x202F \<or> c = 0x205F \<or> c = 0x3000"

text \<open>\<open>str.strip()\<close> with no argument: leading and trailing whitespace removed.\<close>

definition strip :: "pystr \<Rightarrow> pystr" where
  "strip s = rev (dropWhile isspace (rev (dropWhile isspace s)))"

text \<open>\<open>s.endswith(suffix)\<close> and \<open>s.endswith((suffix, ...))\<close>.\<close>

definition endswith :: "pystr \<Rightarrow> pystr \<Rightarrow> bool" where
  "endswith s suffix \<longleftrightarrow>
     length suffix \<le> length s \<and> drop (length s - length suffix) s = suffix"

definition endswith_any :: "pystr \<Rightarrow> pystr list \<Rightarrow> bool" where
  "endswith_any s suffixes = list_ex (endswith s) suffixes"

text \<open>\<open>os.path.join(a, b)\<close> of \<open>posixpath\<close>, for two components.\<close>

definition path_join :: "pystr \<Rightarrow> pystr \<Rightarrow> pystr" where
  "path_join a b =
     (if b \<noteq> [] \<and> hd b = of_char CHR ''/'' then b
      else if a = [] \<or> last a = of_char CHR ''/'' then a @ b
      else a @ py ''/'' @ b)"

section \<open>Regular expressions of the \<open>re\<close> module\<close>

text \<open>
  The fragment of \<open>re\<close> syntax that the program's pattern uses: a character class is a
  predicate on code points, \<open>Plus r\<close> is \<open>r+\<close>. \<open>Never\<close> and \<open>Alt\<close> only arise
  while matching.
\<close>

datatype regex =
    Never
  | Eps
  | Atom "pychar \<Rightarrow> bool"
  | Seq regex regex
  | Alt regex regex
  | Star regex

definition Plus :: "regex \<Rightarrow> regex" where
  "Plus r = Seq r (Star r)"

fun seq_list :: "regex list \<Rightarrow> regex" where
  "seq_list [] = Eps"
| "seq_list (r # rs) = Seq r (seq_list rs)"

text \<open>The character classes \<open>\s\<close>, \<open>.\<close> (without \<open>DOTALL\<close>), \<open>[a-zA-Z0-9_]\<close> and a literal.\<close>

definition cls_space :: regex where
  "cls_space = Atom isspace"

definition cls_dot :: regex where
  "cls_dot = Atom (\<lambda>c. c \<noteq> LF)"

definition is_word :: "pychar \<Rightarrow> bool" where
  "is_word c \<longleftrightarrow>
     (of_char CHR ''a'' \<le> c \<and> c \<le> of_char CHR ''z'') \<or>
     (of_char CHR ''A'' \<le> c \<and> c \<le> of_char CHR ''Z'') \<or>
     (of_char CHR ''0'' \<le> c \<and> c \<le> of_char CHR ''9'') \<or>
     c = of_char CHR ''_''"

definition cls_word :: regex where
  "cls_word = Atom is_word"

definition lit :: "char \<Rightarrow> regex" where
  "lit x = Atom (\<lambda>c. c = of_char x)"

text \<open>
  Matching by derivatives: \<open>nullable r\<close> says that \<open>r\<close> matches the empty string,
  \<open>deriv c r\<close> is what remains of \<open>r\<close> after reading \<open>c\<close>.
\<close>

fun nullable :: "regex \<Rightarrow> bool" where
  "nullable Never = False"
| "nullable Eps = True"
| "nullable (Atom p) = False"
| "nullable (Seq r s) = (nullable r \<and> nullable s)"
| "nullable (Alt r s) = (nullable r \<or> nullable s)"
| "nullable (Star r) = True"

fun alt :: "regex \<Rightarrow> regex \<Rightarrow> regex" where
  "alt Never s = s"
| "alt r Never = r"
| "alt r s = Alt r s"

fun seq :: "regex \<Rightarrow> regex \<Rightarrow> regex" where
  "seq Never s = Never"
| "seq Eps s = s"
| "seq r s = Seq r s"

fun deriv :: "pychar \<Rightarrow> regex \<Rightarrow> regex" where
  "deriv c Never = Never"
| "deriv c Eps = Never"
| "deriv c (Atom p) = (if p c then Eps else Never)"
| "deriv c (Seq r s) =
     (if nullable r then alt (seq (deriv c r) s) (deriv c s) else seq (deriv c r) s)"
| "deriv c (Alt r s) = alt (deriv c r) (deriv c s)"
| "deriv c (Star r) = seq (deriv c r) (Star r)"

text \<open>
  \<open>pattern.match(string)\<close> as a truth value: the pattern matches some prefix of the
  string, starting at its first character.
\<close>

fun re_match :: "regex \<Rightarrow> pystr \<Rightarrow> bool" where
  "re_match r [] = nullable r"
| "re_match r (c # cs) = (nullable r \<or> re_match (deriv c r) cs)"

text \<open>
  \<^verbatim>\<open>commented_code_pattern = re.compile(r'^\s*#.*[a-zA-Z0-9_]+\s*\(.*\)')\<close>

  The pattern is only used through \<open>match\<close>, which starts at the first character of
  the string, where the leading \<open>^\<close> holds: it is the empty pattern here.
\<close>

definition commented_code_pattern :: regex where
  "commented_code_pattern =
     seq_list [Eps, Star cls_space, lit CHR ''#'', Star cls_dot, Plus cls_word,
               Star cls_space, lit CHR ''('', Star cls_dot, lit CHR '')'']"

section \<open>Reading a file\<close>

text \<open>
  \<open>open(filepath, "r", encoding="utf-8")\<close> reads in universal-newlines mode: \<open>\r\n\<close>
  and a lone \<open>\r\<close> reach the program as \<open>\n\<close>. \<open>readlines()\<close> cuts the text after
  every \<open>\n\<close> and keeps it; a last line without \<open>\n\<close> is kept as it is.
\<close>

fun universal_newlines :: "pystr \<Rightarrow> pystr" where
  "universal_newlines [] = []"
| "universal_newlines [c] = [if c = CR then LF else c]"
| "universal_newlines (c # d # cs) =
     (if c = CR \<and> d = LF then LF # universal_newlines cs
      else if c = CR then LF # universal_newlines (d # cs)
      else c # universal_newlines (d # cs))"

fun split_lines :: "pystr \<Rightarrow> pystr \<Rightarrow> pystr list" where
  "split_lines cur [] = (if cur = [] then [] else [cur])"
| "split_lines cur (c # cs) =
     (if c = LF then (cur @ [c]) # split_lines [] cs else split_lines (cur @ [c]) cs)"

definition readlines :: "pystr \<Rightarrow> pystr list" where
  "readlines text = split_lines [] (universal_newlines text)"

text \<open>
  Opening and reading a file either raises (the file cannot be opened, or its bytes are
  not UTF-8) or gives its decoded text.
\<close>

datatype py_error = OSError | UnicodeDecodeError

type_synonym opened = "py_error + pystr"

section \<open>Standard output\<close>

text \<open>Standard output is the list of the strings printed so far, one for each \<open>print\<close>.\<close>

type_synonym stdout = "pystr list"

definition print :: "pystr \<Rightarrow> stdout \<Rightarrow> stdout" where
  "print s out = out @ [s]"

section \<open>\<open>scan_file\<close>\<close>

text \<open>
  \<^verbatim>\<open>
  for line in lines:
      if commented_code_pattern.match(line):
          commented_lines.append(line.strip())
  \<close>
\<close>

fun collect_commented :: "pystr list \<Rightarrow> pystr list \<Rightarrow> pystr list" where
  "collect_commented [] commented_lines = commented_lines"
| "collect_commented (line # lines) commented_lines =
     (if re_match commented_code_pattern line
      then collect_commented lines (commented_lines @ [strip line])
      else collect_commented lines commented_lines)"

text \<open>
  \<^verbatim>\<open>
  print(f"\n Commented-out code found in: {filepath}")
  for line in commented_lines:
      print(f"  <U+2192> {line}")
  \<close>
\<close>

definition found_header :: "pystr \<Rightarrow> pystr" where
  "found_header filepath = LF # py '' Commented-out code found in: '' @ filepath"

definition arrow_line :: "pystr \<Rightarrow> pystr" where
  "arrow_line line = py ''  '' @ [0x2192] @ py '' '' @ line"

fun print_commented :: "pystr list \<Rightarrow> stdout \<Rightarrow> stdout" where
  "print_commented [] out = out"
| "print_commented (line # lines) out = print_commented lines (print (arrow_line line) out)"

text \<open>
  \<open>scan_file\<close> takes the path, what opening and reading that path gives, and standard
  output; it gives standard output afterwards and either the exception that left it or
  the boolean it returned.
\<close>

definition scan_file :: "pystr \<Rightarrow> opened \<Rightarrow> stdout \<Rightarrow> stdout \<times> (py_error + bool)" where
  "scan_file filepath file out =
     (case file of
        Inl e \<Rightarrow> (out, Inl e)
      | Inr text \<Rightarrow>
          (let lines = readlines text;
               commented_lines = collect_commented lines []
           in if commented_lines \<noteq> []
              then (print_commented commented_lines (print (found_header filepath) out), Inr True)
              else (out, Inr False)))"

section \<open>The directory tree and \<open>os.walk\<close>\<close>

text \<open>
  What a path names: a file (anything that is not a directory) with what opening it
  gives, a directory with its entries in the order \<open>scandir\<close> lists them, or a directory
  for which the walk yields nothing: one that \<open>scandir\<close> cannot list, or a symbolic link
  to a directory, which \<open>os.walk\<close> does not follow.
\<close>

datatype fsnode =
    RegFile opened
  | Directory "(pystr \<times> fsnode) list"
  | Unlistable

fun is_dir :: "fsnode \<Rightarrow> bool" where
  "is_dir (RegFile f) = False"
| "is_dir (Directory entries) = True"
| "is_dir Unlistable = True"

fun nondirs :: "(pystr \<times> fsnode) list \<Rightarrow> (pystr \<times> opened) list" where
  "nondirs [] = []"
| "nondirs ((name, RegFile f) # entries) = (name, f) # nondirs entries"
| "nondirs ((name, node) # entries) = nondirs entries"

text \<open>
  \<open>os.walk(dir)\<close>, top-down, with \<open>onerror=None\<close> and \<open>followlinks=False\<close>: an error
  of \<open>scandir\<close> is ignored and the directory yields nothing. An item is
  \<open>(root, dirs, files)\<close>; each name of \<open>files\<close> comes with what opening
  \<open>os.path.join(root, name)\<close> gives.
\<close>

type_synonym walk_item = "pystr \<times> pystr list \<times> (pystr \<times> opened) list"

fun os_walk :: "pystr \<Rightarrow> fsnode \<Rightarrow> walk_item list" where
  "os_walk dir (Directory entries) =
     (dir, map fst (filter (\<lambda>e. is_dir (snd e)) entries), nondirs entries) #
     concat (map (\<lambda>e. if is_dir (snd e) then os_walk (path_join dir (fst e)) (snd e) else [])
                 entries)"
| "os_walk dir (RegFile f) = []"
| "os_walk dir Unlistable = []"

text \<open>The file system gives what a path names, if anything.\<close>

type_synonym filesystem = "pystr \<Rightarrow> fsnode option"

definition walk :: "filesystem \<Rightarrow> pystr \<Rightarrow> walk_item list" where
  "walk fs dir = (case fs dir of None \<Rightarrow> [] | Some node \<Rightarrow> os_walk dir node)"

section \<open>\<open>scan_directory\<close>\<close>

definition suffixes :: "pystr list" where
  "suffixes = [py ''.py'', py ''.js'', py ''.ts'']"

text \<open>
  \<^verbatim>\<open>
  for file in files:
      if file.endswith((".py", ".js", ".ts")):
          filepath = os.path.join(root, file)
          if scan_file(filepath):
              has_error = True
  \<close>
\<close>

fun scan_files :: "pystr \<Rightarrow> (pystr \<times> opened) list \<Rightarrow> bool \<Rightarrow> stdout \<Rightarrow> stdout \<times> (py_error + bool)" where
  "scan_files root [] has_error out = (out, Inr has_error)"
| "scan_files root ((file, f) # files) has_error out =
     (if endswith_any file suffixes
      then (case scan_file (path_join root file) f out of
              (out', Inl e) \<Rightarrow> (out', Inl e)
            | (out', Inr found) \<Rightarrow>
                scan_files root files (if found then True else has_error) out')
      else scan_files root files has_error out)"

text \<open>\<^verbatim>\<open>for root, dirs, files in os.walk(directory): ...\<close>\<close>

fun scan_walk :: "walk_item list \<Rightarrow> bool \<Rightarrow> stdout \<Rightarrow> stdout \<times> (py_error + bool)" where
  "scan_walk [] has_error out = (out, Inr has_error)"
| "scan_walk ((root, dirs, files) # items) has_error out =
     (case scan_files root files has_error out of
        (out', Inl e) \<Rightarrow> (out', Inl e)
      | (out', Inr has_error') \<Rightarrow> scan_walk items has_error' out')"

definition scan_directory :: "filesystem \<Rightarrow> pystr \<Rightarrow> stdout \<Rightarrow> stdout \<times> (py_error + bool)" where
  "scan_directory fs directory out = scan_walk (walk fs directory) False out"

section \<open>The top-level run\<close>

definition TARGET_DIR :: pystr where
  "TARGET_DIR = py ''src''"

text \<open>
  How the process ends: \<open>sys.exit(n)\<close>, or an exception that nothing catches.
\<close>

datatype status = Exit nat | Uncaught py_error

text \<open>
  The exit code of the process: the argument of \<open>sys.exit\<close>, or 1, which the interpreter
  gives a process that ends in an exception that nothing catches.
\<close>

fun process_exit_code :: "status \<Rightarrow> nat" where
  "process_exit_code (Exit n) = n"
| "process_exit_code (Uncaught e) = 1"

definition scanning_banner :: pystr where
  "scanning_banner = [0x1F50D] @ py '' Scanning for commented-out code...''"

definition failed_banner :: pystr where
  "failed_banner = LF # py '' Build failed because commented-out code was detected.''"

definition clean_banner :: pystr where
  "clean_banner = py '' No commented-out code found!''"

definition main :: "filesystem \<Rightarrow> stdout \<Rightarrow> stdout \<times> status" where
  "main fs out =
     (case scan_directory fs TARGET_DIR (print scanning_banner out) of
        (out', Inl e) \<Rightarrow> (out', Uncaught e)
      | (out', Inr errors_found) \<Rightarrow>
          (if errors_found then (print failed_banner out', Exit 1)
           else (print clean_banner out', Exit 0)))"

text \<open>
  The world around a run: the file system and standard output. A run leaves the file
  system as it was and appends to standard output.
\<close>

record world =
  disk :: filesystem
  printed :: stdout

definition run :: "world \<Rightarrow> world \<times> status" where
  "run w = (case main (disk w) (printed w) of (out, st) \<Rightarrow> (w\<lparr>printed := out\<rparr>, st))"

section \<open>Notions of the specification\<close>

subsection \<open>The language of a pattern\<close>

inductive_set star :: "pystr set \<Rightarrow> pystr set" for A :: "pystr set" where
  star_nil: "[] \<in> star A"
| star_app: "u \<in> A \<Longrightarrow> v \<in> star A \<Longrightarrow> u @ v \<in> star A"

fun lang :: "regex \<Rightarrow> pystr set" where
  "lang Never = {}"
| "lang Eps = {[]}"
| "lang (Atom p) = {[c] |c. p c}"
| "lang (Seq r s) = {u @ v |u v. u \<in> lang r \<and> v \<in> lang s}"
| "lang (Alt r s) = lang r \<union> lang s"
| "lang (Star r) = star (lang r)"

subsection \<open>The detection test in words\<close>

text \<open>
  The test as the specification words it: whitespace, \<open>#\<close>, any characters, one or
  more identifier characters, immediately \<open>(\<close>, any characters, \<open>)\<close>, then the rest of
  the line.
\<close>

definition spec_line_match :: "pystr \<Rightarrow> bool" where
  "spec_line_match line \<longleftrightarrow>
     (\<exists>ws any1 ident any2 rest.
        line = ws @ [of_char CHR ''#''] @ any1 @ ident @ [of_char CHR ''(''] @ any2 @
               [of_char CHR '')''] @ rest \<and>
        list_all isspace ws \<and> ident \<noteq> [] \<and> list_all is_word ident)"

text \<open>The same with whitespace allowed between the identifier characters and \<open>(\<close>.\<close>

definition gap_line_match :: "pystr \<Rightarrow> bool" where
  "gap_line_match line \<longleftrightarrow>
     (\<exists>ws any1 ident gap any2 rest.
        line = ws @ [of_char CHR ''#''] @ any1 @ ident @ gap @ [of_char CHR ''(''] @ any2 @
               [of_char CHR '')''] @ rest \<and>
        list_all isspace ws \<and> ident \<noteq> [] \<and> list_all is_word ident \<and> list_all isspace gap)"

text \<open>Some \<open>(\<close> of the string comes right after an identifier character.\<close>

fun word_before_paren :: "pystr \<Rightarrow> bool" where
  "word_before_paren (c # d # cs) =
     ((is_word c \<and> d = of_char CHR ''('') \<or> word_before_paren (d # cs))"
| "word_before_paren cs = False"

subsection \<open>Matched lines, reports and scanned files\<close>

text \<open>The lines of a text that match, trimmed, in the order of the text.\<close>

definition matched_lines :: "pystr \<Rightarrow> pystr list" where
  "matched_lines text = map strip (filter (re_match commented_code_pattern) (readlines text))"

text \<open>What is printed for one file: nothing, or its header and its matched lines.\<close>

definition file_report :: "pystr \<Rightarrow> opened \<Rightarrow> stdout" where
  "file_report filepath file =
     (case file of
        Inl e \<Rightarrow> []
      | Inr text \<Rightarrow>
          (if matched_lines text = [] then []
           else found_header filepath # map arrow_line (matched_lines text)))"

text \<open>The file can be read and at least one of its lines matches.\<close>

definition has_match :: "opened \<Rightarrow> bool" where
  "has_match file =
     (case file of
        Inl e \<Rightarrow> False
      | Inr text \<Rightarrow> list_ex (re_match commented_code_pattern) (readlines text))"

text \<open>
  The files under a directory whose names end in a recognised suffix, each with its
  path, in the order of the walk.
\<close>

definition qualifying :: "walk_item \<Rightarrow> (pystr \<times> opened) list" where
  "qualifying item =
     map (\<lambda>nf. (path_join (fst item) (fst nf), snd nf))
         (filter (\<lambda>nf. endswith_any (fst nf) suffixes) (snd (snd item)))"

definition scanned_files :: "filesystem \<Rightarrow> pystr \<Rightarrow> (pystr \<times> opened) list" where
  "scanned_files fs directory = concat (map qualifying (walk fs directory))"

text \<open>What is printed for a list of files with their paths.\<close>

definition reports :: "(pystr \<times> opened) list \<Rightarrow> stdout" where
  "reports pfs = concat (map (\<lambda>pf. file_report (fst pf) (snd pf)) pfs)"

text \<open>Every scanned file can be opened and decoded.\<close>

definition readable :: "filesystem \<Rightarrow> pystr \<Rightarrow> bool" where
  "readable fs directory = list_all (\<lambda>pf. \<not> isl (snd pf)) (scanned_files fs directory)"

definition any_match :: "filesystem \<Rightarrow> pystr \<Rightarrow> bool" where
  "any_match fs directory = list_ex (\<lambda>pf. has_match (snd pf)) (scanned_files fs directory)"

subsection \<open>Trees that differ in unrecognised files only\<close>

text \<open>
  \<open>blank\<close> makes every file whose name has no recognised suffix unreadable, and keeps
  the rest of the tree. Two trees with the same \<open>blank\<close> differ at most in what such
  files hold and in whether they can be read at all.
\<close>

fun blank :: "fsnode \<Rightarrow> fsnode" where
  "blank (Directory entries) =
     Directory (map (\<lambda>e. (fst e,
                           if is_dir (snd e) then blank (snd e)
                           else if endswith_any (fst e) suffixes then snd e
                           else RegFile (Inl OSError)))
                    entries)"
| "blank (RegFile f) = RegFile (Inl OSError)"
| "blank Unlistable = Unlistable"

text \<open>The scan as one loop over the scanned files.\<close>

fun scan_paths :: "(pystr \<times> opened) list \<Rightarrow> bool \<Rightarrow> stdout \<Rightarrow> stdout \<times> (py_error + bool)" where
  "scan_paths [] has_error out = (out, Inr has_error)"
| "scan_paths (pf # pfs) has_error out =
     (case scan_file (fst pf) (snd pf) out of
        (out', Inl e) \<Rightarrow> (out', Inl e)
      | (out', Inr found) \<Rightarrow> scan_paths pfs (if found then True else has_error) out')"

subsection \<open>Small file systems\<close>

text \<open>A file system that holds one tree, at the path the program scans.\<close>

definition src_tree :: "fsnode \<Rightarrow> filesystem" where
  "src_tree node = (\<lambda>p. if p = TARGET_DIR then Some node else None)"

definition text_file :: "string \<Rightarrow> fsnode" where
  "text_file s = RegFile (Inr (py s))"

text \<open>
  A tree with a clean file, a file with one commented-out call among other lines, a file
  with an unrecognised suffix, and a subdirectory with a second offending file.
\<close>

definition sample_tree :: fsnode where
  "sample_tree =
     Directory
       [(py ''a.py'', text_file ''x = 1''),
        (py ''b.py'', RegFile (Inr (py ''    # total(a, b)'' @ [LF] @ py ''y = 2'' @ [LF]))),
        (py ''d.txt'', text_file ''# total(a,b)''),
        (py ''lib'',
         Directory
           [(py ''c.js'', text_file ''# see formula: total(a,b) explained''),
            (py ''e.js'', text_file ''// total(a,b)'')])]"

definition clean_tree :: fsnode where
  "clean_tree =
     Directory [(py ''a.py'', text_file ''x = 1''), (py ''d.txt'', text_file ''# total(a,b)'')]"

text \<open>Three lines with surrounding whitespace; the last one ends in \<open>\r\n\<close>.\<close>

definition three_lines :: pystr where
  "three_lines = py ''  # g()  '' @ [LF] @ py ''x = 1'' @ [LF] @ [0x09] @ py ''# h(1)'' @ [CR, LF]"

section \<open>Evaluation\<close>

lemmas eval_defs =
  py_def LF_def CR_def isspace_def is_word_def strip_def endswith_def endswith_any_def
  path_join_def Plus_def cls_space_def cls_dot_def cls_word_def lit_def
  commented_code_pattern_def readlines_def print_def found_header_def arrow_line_def
  scan_file_def walk_def suffixes_def scan_directory_def TARGET_DIR_def
  scanning_banner_def failed_banner_def clean_banner_def main_def run_def
  src_tree_def text_file_def sample_tree_def clean_tree_def
  matched_lines_def file_report_def has_match_def qualifying_def scanned_files_def
  reports_def readable_def any_match_def

section \<open>The loops\<close>

lemma collect_commented_acc:
  "collect_commented lines acc =
     acc @ map strip (filter (re_match commented_code_pattern) lines)"
  by (induction lines arbitrary: acc) simp_all

lemma collect_commented_matched:
  "collect_commented (readlines text) [] = matched_lines text"
  by (simp add: collect_commented_acc matched_lines_def)

lemma print_commented_append:
  "print_commented lines out = out @ map arrow_line lines"
  by (induction lines arbitrary: out) (simp_all add: print_def)

lemma matched_lines_empty:
  "matched_lines text = [] \<longleftrightarrow> \<not> has_match (Inr text)"
  by (simp add: matched_lines_def has_match_def filter_empty_conv list_ex_iff)

lemma scan_file_readable:
  "scan_file filepath (Inr text) out =
     (out @ file_report filepath (Inr text), Inr (has_match (Inr text)))"
  by (simp add: scan_file_def collect_commented_matched print_commented_append
        file_report_def matched_lines_empty print_def)

lemma scan_file_unreadable:
  "scan_file filepath (Inl e) out = (out, Inl e)"
  by (simp add: scan_file_def)

text \<open>Every loop only appends to standard output, and what it appends and returns does
  not depend on what was printed before.\<close>

lemma scan_file_appends:
  "\<exists>p r. \<forall>out. scan_file filepath f out = (out @ p, r)"
  by (cases f) (auto simp: scan_file_readable scan_file_unreadable)

lemma scan_files_appends:
  "\<exists>p r. \<forall>out. scan_files root fs has_error out = (out @ p, r)"
proof (induction fs arbitrary: has_error)
  case Nil
  show ?case by simp
next
  case (Cons nf fs)
  obtain name f where nf: "nf = (name, f)" by (cases nf)
  show ?case
  proof (cases "endswith_any name suffixes")
    case False
    then show ?thesis using Cons.IH [of has_error] nf by simp
  next
    case True
    obtain p r where one: "\<And>out. scan_file (path_join root name) f out = (out @ p, r)"
      using scan_file_appends by blast
    show ?thesis
    proof (cases r)
      case (Inl e)
      then have "\<forall>out. scan_files root (nf # fs) has_error out = (out @ p, Inl e)"
        using True nf one by simp
      then show ?thesis by blast
    next
      case (Inr found)
      obtain p' r' where
        more: "\<And>out. scan_files root fs (if found then True else has_error) out = (out @ p', r')"
        using Cons.IH by blast
      have "\<forall>out. scan_files root (nf # fs) has_error out = (out @ (p @ p'), r')"
        using True nf one Inr more by simp
      then show ?thesis by blast
    qed
  qed
qed

lemma scan_walk_appends:
  "\<exists>p r. \<forall>out. scan_walk items has_error out = (out @ p, r)"
proof (induction items arbitrary: has_error)
  case Nil
  show ?case by simp
next
  case (Cons item items)
  obtain root dirs fs where item: "item = (root, dirs, fs)" by (cases item)
  obtain p r where one: "\<And>out. scan_files root fs has_error out = (out @ p, r)"
    using scan_files_appends by blast
  show ?case
  proof (cases r)
    case (Inl e)
    then have "\<forall>out. scan_walk (item # items) has_error out = (out @ p, Inl e)"
      using item one by simp
    then show ?thesis by blast
  next
    case (Inr h)
    obtain p' r' where more: "\<And>out. scan_walk items h out = (out @ p', r')"
      using Cons.IH by blast
    have "\<forall>out. scan_walk (item # items) has_error out = (out @ (p @ p'), r')"
      using item one Inr more by simp
    then show ?thesis by blast
  qed
qed

lemma main_appends:
  "\<exists>p st. \<forall>out. main fs out = (out @ p, st)"
proof -
  obtain p r where scan: "\<And>out. scan_directory fs TARGET_DIR out = (out @ p, r)"
    using scan_walk_appends unfolding scan_directory_def by blast
  show ?thesis
  proof (cases r)
    case (Inl e)
    then have "\<forall>out. main fs out = (out @ (scanning_banner # p), Uncaught e)"
      using scan by (simp add: main_def print_def)
    then show ?thesis by blast
  next
    case (Inr found)
    then have "\<forall>out. main fs out =
        (out @ (scanning_banner # p @ [if found then failed_banner else clean_banner]),
         if found then Exit 1 else Exit 0)"
      using scan by (simp add: main_def print_def)
    then show ?thesis by blast
  qed
qed

text \<open>When every scanned file can be read, the scan prints the report of each of them and
  returns whether one of them has a match.\<close>

lemma scan_files_all_readable:
  "list_all (\<lambda>pf. \<not> isl (snd pf)) (qualifying (root, dirs, fs)) \<Longrightarrow>
   scan_files root fs has_error out =
     (out @ reports (qualifying (root, dirs, fs)),
      Inr (has_error \<or> list_ex (\<lambda>pf. has_match (snd pf)) (qualifying (root, dirs, fs))))"
proof (induction fs arbitrary: has_error out)
  case Nil
  show ?case by (simp add: qualifying_def reports_def)
next
  case (Cons nf fs)
  obtain name f where nf: "nf = (name, f)" by (cases nf)
  show ?case
  proof (cases "endswith_any name suffixes")
    case False
    then have q: "qualifying (root, dirs, nf # fs) = qualifying (root, dirs, fs)"
      using nf by (simp add: qualifying_def)
    show ?thesis using Cons False nf unfolding q by simp
  next
    case True
    then have q: "qualifying (root, dirs, nf # fs) =
        (path_join root name, f) # qualifying (root, dirs, fs)"
      using nf by (simp add: qualifying_def)
    from Cons.prems obtain t where f: "f = Inr t"
      unfolding q by (cases f) simp_all
    have rest: "list_all (\<lambda>pf. \<not> isl (snd pf)) (qualifying (root, dirs, fs))"
      using Cons.prems unfolding q by simp
    show ?thesis
      unfolding q using True nf f Cons.IH [OF rest]
      by (simp add: scan_file_readable reports_def)
  qed
qed

lemma scan_walk_all_readable:
  "list_all (\<lambda>pf. \<not> isl (snd pf)) (concat (map qualifying items)) \<Longrightarrow>
   scan_walk items has_error out =
     (out @ reports (concat (map qualifying items)),
      Inr (has_error \<or> list_ex (\<lambda>pf. has_match (snd pf)) (concat (map qualifying items))))"
proof (induction items arbitrary: has_error out)
  case Nil
  show ?case by (simp add: reports_def)
next
  case (Cons item items)
  obtain root dirs fs where item: "item = (root, dirs, fs)" by (cases item)
  have here: "list_all (\<lambda>pf. \<not> isl (snd pf)) (qualifying (root, dirs, fs))"
    and rest: "list_all (\<lambda>pf. \<not> isl (snd pf)) (concat (map qualifying items))"
    using Cons.prems item by simp_all
  show ?case
    using item scan_files_all_readable [OF here] Cons.IH [OF rest]
    by (simp add: reports_def)
qed

lemma scan_directory_all_readable:
  "readable fs directory \<Longrightarrow>
   scan_directory fs directory out =
     (out @ reports (scanned_files fs directory), Inr (any_match fs directory))"
  unfolding readable_def scanned_files_def any_match_def scan_directory_def
  by (simp add: scan_walk_all_readable)

section \<open>The pattern and its language\<close>

lemma nullable_lang: "nullable r \<longleftrightarrow> [] \<in> lang r"
  by (induction r) (auto intro: star_nil)

lemma lang_alt: "lang (alt r s) = lang r \<union> lang s"
  by (induction r s rule: alt.induct) simp_all

lemma lang_seq: "lang (seq r s) = lang (Seq r s)"
  by (induction r s rule: seq.induct) simp_all

lemma star_cons_split:
  assumes "x \<in> star A" and "x = c # w"
  shows "\<exists>u v. w = u @ v \<and> c # u \<in> A \<and> v \<in> star A"
  using assms
proof (induction arbitrary: w rule: star.induct)
  case star_nil
  then show ?case by simp
next
  case (star_app u v)
  show ?case
  proof (cases u)
    case Nil
    then show ?thesis using star_app by simp
  next
    case (Cons d u')
    then have "w = u' @ v" "c # u' \<in> A"
      using star_app.prems star_app.hyps(1) by simp_all
    then show ?thesis using star_app.hyps(2) by blast
  qed
qed

lemma star_cons:
  "c # w \<in> star A \<longleftrightarrow> (\<exists>u v. w = u @ v \<and> c # u \<in> A \<and> v \<in> star A)"
proof
  assume "c # w \<in> star A"
  then show "\<exists>u v. w = u @ v \<and> c # u \<in> A \<and> v \<in> star A"
    using star_cons_split by blast
next
  assume "\<exists>u v. w = u @ v \<and> c # u \<in> A \<and> v \<in> star A"
  then obtain u v where "w = u @ v" "c # u \<in> A" "v \<in> star A" by blast
  then show "c # w \<in> star A"
    using star_app [of "c # u" A v] by simp
qed

lemma lang_deriv: "w \<in> lang (deriv c r) \<longleftrightarrow> c # w \<in> lang r"
proof (induction r arbitrary: w)
  case (Seq r s)
  show ?case
    by (auto simp: lang_alt lang_seq Seq nullable_lang Cons_eq_append_conv)
next
  case (Star r)
  show ?case
    by (auto simp: lang_seq Star star_cons)
qed (auto simp: lang_alt)

lemma re_match_lang: "re_match r s \<longleftrightarrow> (\<exists>p q. s = p @ q \<and> p \<in> lang r)"
proof (induction s arbitrary: r)
  case Nil
  show ?case by (simp add: nullable_lang)
next
  case (Cons c cs)
  show ?case
    by (auto simp: Cons nullable_lang lang_deriv Cons_eq_append_conv)
qed

lemma star_atom: "w \<in> star {[c] |c. P c} \<longleftrightarrow> list_all P w"
proof
  assume "w \<in> star {[c] |c. P c}"
  then show "list_all P w"
    by (induction rule: star.induct) auto
next
  assume "list_all P w"
  then show "w \<in> star {[c] |c. P c}"
  proof (induction w)
    case Nil
    show ?case by (rule star_nil)
  next
    case (Cons c w)
    then have "[c] \<in> {[c] |c. P c}" and "w \<in> star {[c] |c. P c}" by simp_all
    then have "[c] @ w \<in> star {[c] |c. P c}" by (rule star_app)
    then show ?case by simp
  qed
qed

lemma lang_star_atom: "w \<in> lang (Star (Atom P)) \<longleftrightarrow> list_all P w"
  by (simp add: star_atom)

lemma lang_SeqI: "u \<in> lang r \<Longrightarrow> v \<in> lang s \<Longrightarrow> u @ v \<in> lang (Seq r s)"
  by auto

lemma lang_plus_atom: "w \<in> lang (Plus (Atom P)) \<longleftrightarrow> w \<noteq> [] \<and> list_all P w"
proof
  assume "w \<in> lang (Plus (Atom P))"
  then show "w \<noteq> [] \<and> list_all P w"
    by (auto simp: Plus_def star_atom)
next
  assume w: "w \<noteq> [] \<and> list_all P w"
  then obtain c cs where w': "w = [c] @ cs" and "P c" "list_all P cs"
    by (cases w) auto
  then have "[c] \<in> lang (Atom P)" and "cs \<in> lang (Star (Atom P))"
    by (simp_all add: star_atom)
  then have "[c] @ cs \<in> lang (Seq (Atom P) (Star (Atom P)))"
    by (rule lang_SeqI)
  then show "w \<in> lang (Plus (Atom P))"
    unfolding w' Plus_def .
qed

lemma lang_lit: "w \<in> lang (lit x) \<longleftrightarrow> w = [of_char x]"
  by (auto simp: lit_def)

lemma lang_SeqE:
  assumes "w \<in> lang (Seq r s)"
  obtains u v where "w = u @ v" "u \<in> lang r" "v \<in> lang s"
  using assms by auto

lemma lang_commented_code_pattern:
  "p \<in> lang commented_code_pattern \<longleftrightarrow>
     (\<exists>ws any1 ident gap any2.
        p = ws @ [of_char CHR ''#''] @ any1 @ ident @ gap @ [of_char CHR ''(''] @ any2 @
            [of_char CHR '')''] \<and>
        list_all isspace ws \<and> list_all (\<lambda>c. c \<noteq> LF) any1 \<and> ident \<noteq> [] \<and>
        list_all is_word ident \<and> list_all isspace gap \<and> list_all (\<lambda>c. c \<noteq> LF) any2)"
  (is "?L \<longleftrightarrow> ?R")
proof
  assume ?L
  then have "\<exists>ws h any1 ident gap l any2 r.
      p = ws @ h @ any1 @ ident @ gap @ l @ any2 @ r \<and>
      ws \<in> lang (Star cls_space) \<and> h \<in> lang (lit CHR ''#'') \<and>
      any1 \<in> lang (Star cls_dot) \<and> ident \<in> lang (Plus cls_word) \<and>
      gap \<in> lang (Star cls_space) \<and> l \<in> lang (lit CHR ''('') \<and>
      any2 \<in> lang (Star cls_dot) \<and> r \<in> lang (lit CHR '')'')"
    unfolding commented_code_pattern_def
    by (auto simp del: lang.simps(6)) blast
  then obtain ws h any1 ident gap l any2 r where
    p: "p = ws @ h @ any1 @ ident @ gap @ l @ any2 @ r" and
    m: "ws \<in> lang (Star cls_space)" "any1 \<in> lang (Star cls_dot)"
       "ident \<in> lang (Plus cls_word)" "gap \<in> lang (Star cls_space)"
       "any2 \<in> lang (Star cls_dot)" and
    l: "h \<in> lang (lit CHR ''#'')" "l \<in> lang (lit CHR ''('')" "r \<in> lang (lit CHR '')'')"
    by blast
  have "p = ws @ [of_char CHR ''#''] @ any1 @ ident @ gap @ [of_char CHR ''(''] @ any2 @
            [of_char CHR '')'']"
    using p l by (simp only: lang_lit)
  moreover have "list_all isspace ws" "list_all (\<lambda>c. c \<noteq> LF) any1" "ident \<noteq> []"
      "list_all is_word ident" "list_all isspace gap" "list_all (\<lambda>c. c \<noteq> LF) any2"
    using m
    unfolding cls_space_def cls_dot_def cls_word_def lang_star_atom lang_plus_atom
    by simp_all
  ultimately show ?R by blast
next
  assume ?R
  then obtain ws any1 ident gap any2 where
    p: "p = ws @ [of_char CHR ''#''] @ any1 @ ident @ gap @ [of_char CHR ''(''] @ any2 @
            [of_char CHR '')'']" and
    parts: "list_all isspace ws" "list_all (\<lambda>c. c \<noteq> LF) any1" "ident \<noteq> []"
      "list_all is_word ident" "list_all isspace gap" "list_all (\<lambda>c. c \<noteq> LF) any2"
    by blast
  have a: "[] \<in> lang Eps" "ws \<in> lang (Star cls_space)"
      "[of_char CHR ''#''] \<in> lang (lit CHR ''#'')" "any1 \<in> lang (Star cls_dot)"
      "ident \<in> lang (Plus cls_word)" "gap \<in> lang (Star cls_space)"
      "[of_char CHR ''(''] \<in> lang (lit CHR ''('')" "any2 \<in> lang (Star cls_dot)"
      "[of_char CHR '')''] \<in> lang (lit CHR '')'')"
    using parts
    unfolding cls_space_def cls_dot_def cls_word_def lang_star_atom lang_plus_atom lang_lit
    by simp_all
  have "[] @ ws @ [of_char CHR ''#''] @ any1 @ ident @ gap @ [of_char CHR ''(''] @ any2 @
            [of_char CHR '')''] @ [] \<in> lang commented_code_pattern"
    unfolding commented_code_pattern_def seq_list.simps
    by (intro lang_SeqI a)
  then show ?L using p by simp
qed

section \<open>Lines of a file\<close>

text \<open>In a line of \<open>readlines\<close>, a newline can only be the last character.\<close>

lemma split_lines_LF:
  "l \<in> set (split_lines cur s) \<Longrightarrow> LF \<notin> set cur \<Longrightarrow> LF \<notin> set (butlast l)"
proof (induction s arbitrary: cur)
  case Nil
  then show ?case by (auto split: if_splits dest: in_set_butlastD)
next
  case (Cons c s)
  show ?case
  proof (cases "c = LF")
    case True
    then have "l = cur @ [c] \<or> l \<in> set (split_lines [] s)"
      using Cons.prems(1) by simp
    then show ?thesis using Cons.IH [of "[]"] Cons.prems(2) by auto
  next
    case False
    then have "l \<in> set (split_lines (cur @ [c]) s)" "LF \<notin> set (cur @ [c])"
      using Cons.prems by auto
    then show ?thesis by (rule Cons.IH)
  qed
qed

lemma readlines_LF: "l \<in> set (readlines text) \<Longrightarrow> LF \<notin> set (butlast l)"
  using split_lines_LF [of l "[]" "universal_newlines text"] by (simp add: readlines_def)

lemma no_LF_before_last:
  assumes "LF \<notin> set (butlast (xs @ ys @ zs))" and "zs \<noteq> []"
  shows "list_all (\<lambda>c. c \<noteq> LF) ys"
proof -
  have "butlast (xs @ ys @ zs) = xs @ ys @ butlast zs"
    using assms(2) by (simp add: butlast_append)
  then show ?thesis using assms(1) by (auto simp: list_all_iff)
qed

lemma word_before_paren_ident:
  "ident \<noteq> [] \<Longrightarrow> list_all is_word ident \<Longrightarrow>
   word_before_paren (ident @ of_char CHR ''('' # post)"
proof (induction ident)
  case Nil
  then show ?case by simp
next
  case (Cons c ident)
  then show ?case by (cases ident) simp_all
qed

lemma word_before_paren_prefix:
  "word_before_paren ys \<Longrightarrow> word_before_paren (pre @ ys)"
proof (induction pre)
  case Nil
  then show ?case by simp
next
  case (Cons c pre)
  then show ?case by (cases "pre @ ys") simp_all
qed

lemma spec_line_match_word_before_paren:
  assumes "spec_line_match line"
  shows "word_before_paren line"
proof -
  from assms obtain ws any1 ident any2 rest where
    l: "line = ws @ [of_char CHR ''#''] @ any1 @ ident @ [of_char CHR ''(''] @ any2 @
               [of_char CHR '')''] @ rest" and
    parts: "ident \<noteq> []" "list_all is_word ident"
    unfolding spec_line_match_def by blast
  have "word_before_paren (ident @ of_char CHR ''('' # any2 @ [of_char CHR '')''] @ rest)"
    using parts by (rule word_before_paren_ident)
  then have "word_before_paren ((ws @ [of_char CHR ''#''] @ any1) @
      ident @ of_char CHR ''('' # any2 @ [of_char CHR '')''] @ rest)"
    by (rule word_before_paren_prefix)
  then show ?thesis using l by simp
qed

section \<open>Trimming\<close>

text \<open>\<open>strip\<close> cuts whitespace off both ends and nothing else; a matching line has a
  \<open>#\<close>, so what is left of it is not empty.\<close>

lemma rev_dropWhile_takeWhile:
  "xs = rev (dropWhile P (rev xs)) @ rev (takeWhile P (rev xs))"
  by (metis rev_append rev_rev_ident takeWhile_dropWhile_id)

lemma strip_middle:
  "dropWhile isspace s = strip s @ rev (takeWhile isspace (rev (dropWhile isspace s)))"
  unfolding strip_def by (rule rev_dropWhile_takeWhile)

lemma strip_parts:
  "\<exists>pre post. s = pre @ strip s @ post \<and> list_all isspace pre \<and> list_all isspace post"
proof -
  let ?m = "dropWhile isspace s"
  have "s = takeWhile isspace s @ ?m" by simp
  then have "s = takeWhile isspace s @ strip s @ rev (takeWhile isspace (rev ?m))"
    using strip_middle [of s] by simp
  moreover have "list_all isspace (takeWhile isspace s)"
    by (auto simp: list_all_iff dest: set_takeWhileD)
  moreover have "list_all isspace (rev (takeWhile isspace (rev ?m)))"
    by (auto simp: list_all_iff dest: set_takeWhileD)
  ultimately show ?thesis by blast
qed

lemma strip_last: "strip s \<noteq> [] \<Longrightarrow> \<not> isspace (last (strip s))"
  unfolding strip_def by (simp add: last_rev hd_dropWhile)

lemma strip_hd:
  assumes "strip s \<noteq> []"
  shows "\<not> isspace (hd (strip s))"
proof -
  let ?m = "dropWhile isspace s"
  have "hd ?m = hd (strip s)" and "?m \<noteq> []"
    using assms strip_middle [of s] by (metis hd_append2, metis append_is_Nil_conv)
  then show ?thesis using hd_dropWhile [of isspace s] by simp
qed

lemma strip_nonempty:
  assumes "c \<in> set s" and "\<not> isspace c"
  shows "strip s \<noteq> []"
proof
  assume e: "strip s = []"
  obtain pre post where "s = pre @ strip s @ post" "list_all isspace pre" "list_all isspace post"
    using strip_parts by blast
  then have "list_all isspace s" using e by (metis append_Nil list_all_append)
  then show False using assms by (simp add: list_all_iff)
qed

lemma matched_line_has_hash:
  assumes "re_match commented_code_pattern line"
  shows "of_char CHR ''#'' \<in> set line"
proof -
  obtain p rest where "line = p @ rest" "p \<in> lang commented_code_pattern"
    using assms unfolding re_match_lang by blast
  then show ?thesis unfolding lang_commented_code_pattern by auto
qed

lemma matched_line_trimmed:
  assumes "re_match commented_code_pattern line"
  shows "\<exists>pre post. line = pre @ strip line @ post \<and>
           list_all isspace pre \<and> list_all isspace post \<and> strip line \<noteq> [] \<and>
           \<not> isspace (hd (strip line)) \<and> \<not> isspace (last (strip line))"
proof -
  have "\<not> isspace (of_char CHR ''#'')" by (simp add: isspace_def)
  then have "strip line \<noteq> []"
    using matched_line_has_hash [OF assms] strip_nonempty by blast
  then show ?thesis using strip_parts [of line] strip_hd strip_last by blast
qed

section \<open>The scan as one loop\<close>

lemma scan_files_paths:
  "scan_files root fs has_error out = scan_paths (qualifying (root, dirs, fs)) has_error out"
proof (induction fs arbitrary: has_error out)
  case Nil
  show ?case by (simp add: qualifying_def)
next
  case (Cons nf fs)
  obtain name f where nf: "nf = (name, f)" by (cases nf)
  show ?case
  proof (cases "endswith_any name suffixes")
    case False
    then have "qualifying (root, dirs, nf # fs) = qualifying (root, dirs, fs)"
      using nf by (simp add: qualifying_def)
    then show ?thesis using Cons False nf by simp
  next
    case True
    then have "qualifying (root, dirs, nf # fs) =
        (path_join root name, f) # qualifying (root, dirs, fs)"
      using nf by (simp add: qualifying_def)
    then show ?thesis using Cons True nf
      by (simp split: prod.splits sum.splits)
  qed
qed

lemma scan_paths_append:
  "scan_paths (xs @ ys) has_error out =
     (case scan_paths xs has_error out of
        (out', Inl e) \<Rightarrow> (out', Inl e)
      | (out', Inr has_error') \<Rightarrow> scan_paths ys has_error' out')"
  by (induction xs arbitrary: has_error out) (simp_all split: prod.splits sum.splits)

lemma scan_walk_paths:
  "scan_walk items has_error out = scan_paths (concat (map qualifying items)) has_error out"
proof (induction items arbitrary: has_error out)
  case Nil
  show ?case by simp
next
  case (Cons item items)
  obtain root dirs fs where item: "item = (root, dirs, fs)" by (cases item)
  show ?case
    using Cons scan_files_paths [of root fs _ _ dirs]
    by (simp add: item scan_paths_append split: prod.splits sum.splits)
qed

lemma scan_directory_paths:
  "scan_directory fs directory out = scan_paths (scanned_files fs directory) False out"
  by (simp add: scan_directory_def scanned_files_def scan_walk_paths)

text \<open>A scan that returns has read every scanned file.\<close>

lemma scan_paths_returns_readable:
  "scan_paths pfs has_error out = (out', Inr b) \<Longrightarrow> list_all (\<lambda>pf. \<not> isl (snd pf)) pfs"
proof (induction pfs arbitrary: has_error out)
  case Nil
  show ?case by simp
next
  case (Cons pf pfs)
  show ?case
  proof (cases "snd pf")
    case (Inl e)
    then show ?thesis using Cons.prems by (simp add: scan_file_unreadable)
  next
    case (Inr t)
    then have "scan_paths pfs (if has_match (Inr t) then True else has_error)
                 (out @ file_report (fst pf) (Inr t)) = (out', Inr b)"
      using Cons.prems by (simp add: scan_file_readable)
    then have "list_all (\<lambda>pf. \<not> isl (snd pf)) pfs" by (rule Cons.IH)
    then show ?thesis using Inr by simp
  qed
qed

lemma scan_directory_returns_readable:
  assumes "snd (scan_directory fs directory out) = Inr b"
  shows "readable fs directory"
proof -
  obtain out' where "scan_paths (scanned_files fs directory) False out = (out', Inr b)"
    using assms unfolding scan_directory_paths
    by (cases "scan_paths (scanned_files fs directory) False out") simp
  then show ?thesis
    unfolding readable_def by (rule scan_paths_returns_readable)
qed

section \<open>Blanked trees\<close>

text \<open>Blanking a tree changes neither which files are scanned nor what they hold.\<close>

lemma is_dir_blank: "is_dir (blank node) = is_dir node"
  by (cases node) simp_all

lemma qualifying_nondirs_blank:
  "filter (\<lambda>nf. endswith_any (fst nf) suffixes)
     (nondirs (map (\<lambda>e. (fst e,
                           if is_dir (snd e) then blank (snd e)
                           else if endswith_any (fst e) suffixes then snd e
                           else RegFile (Inl OSError))) entries)) =
   filter (\<lambda>nf. endswith_any (fst nf) suffixes) (nondirs entries)"
proof (induction entries)
  case Nil
  show ?case by simp
next
  case (Cons e entries)
  obtain name node where e: "e = (name, node)" by (cases e)
  show ?case
  proof (cases node)
    case (RegFile f)
    then show ?thesis using Cons e by simp
  next
    case (Directory es)
    then show ?thesis using Cons e by simp
  next
    case Unlistable
    then show ?thesis using Cons e by simp
  qed
qed

lemma concat_map_concat_map:
  "concat (map f (concat (map h xs))) = concat (map (\<lambda>x. concat (map f (h x))) xs)"
  by (induction xs) simp_all

lemma qualifying_walk_blank:
  "concat (map qualifying (os_walk dir (blank node))) =
   concat (map qualifying (os_walk dir node))"
proof (induction dir node rule: os_walk.induct)
  case (1 dir entries)
  let ?g = "\<lambda>e. (fst e,
                   if is_dir (snd e) then blank (snd e)
                   else if endswith_any (fst e) suffixes then snd e
                   else RegFile (Inl OSError))"
  have sub: "map (\<lambda>e. concat (map qualifying
                 (if is_dir (snd (?g e)) then os_walk (path_join dir (fst (?g e))) (snd (?g e))
                  else []))) entries =
             map (\<lambda>e. concat (map qualifying
                 (if is_dir (snd e) then os_walk (path_join dir (fst e)) (snd e) else [])))
               entries"
  proof (rule map_cong [OF refl])
    fix e assume "e \<in> set entries"
    then show "concat (map qualifying
                 (if is_dir (snd (?g e)) then os_walk (path_join dir (fst (?g e))) (snd (?g e))
                  else [])) =
               concat (map qualifying
                 (if is_dir (snd e) then os_walk (path_join dir (fst e)) (snd e) else []))"
      using "1.IH" [of e] by (simp add: is_dir_blank)
  qed
  have "concat (map qualifying (os_walk dir (blank (Directory entries)))) =
        qualifying (dir, map fst (filter (\<lambda>e. is_dir (snd e)) (map ?g entries)),
                    nondirs (map ?g entries)) @
        concat (map (\<lambda>e. concat (map qualifying
                 (if is_dir (snd (?g e)) then os_walk (path_join dir (fst (?g e))) (snd (?g e))
                  else []))) entries)"
    by (simp add: concat_map_concat_map o_def)
  also have "qualifying (dir, map fst (filter (\<lambda>e. is_dir (snd e)) (map ?g entries)),
                    nondirs (map ?g entries)) =
             qualifying (dir, map fst (filter (\<lambda>e. is_dir (snd e)) entries), nondirs entries)"
    using qualifying_nondirs_blank [of entries] by (simp add: qualifying_def)
  also have "qualifying (dir, map fst (filter (\<lambda>e. is_dir (snd e)) entries), nondirs entries) @
        concat (map (\<lambda>e. concat (map qualifying
                 (if is_dir (snd (?g e)) then os_walk (path_join dir (fst (?g e))) (snd (?g e))
                  else []))) entries) =
        concat (map qualifying (os_walk dir (Directory entries)))"
    unfolding sub by (simp add: concat_map_concat_map)
  finally show ?case .
next
  case (2 dir f)
  show ?case by simp
next
  case (3 dir)
  show ?case by simp
qed

lemma scanned_files_blank:
  assumes "map_option blank (fs directory) = map_option blank (fs' directory)"
  shows "scanned_files fs directory = scanned_files fs' directory"
proof (cases "fs directory")
  case None
  then have "fs' directory = None" using assms by simp
  then show ?thesis using None by (simp add: scanned_files_def walk_def)
next
  case (Some node)
  then obtain node' where n': "fs' directory = Some node'" and b: "blank node = blank node'"
    using assms by (cases "fs' directory") simp_all
  have "concat (map qualifying (os_walk directory node)) =
        concat (map qualifying (os_walk directory node'))"
    using qualifying_walk_blank [of directory node] qualifying_walk_blank [of directory node'] b
    by simp
  then show ?thesis using Some n' by (simp add: scanned_files_def walk_def)
qed

section \<open>The sample trees\<close>

lemma sample_readable: "readable (src_tree sample_tree) TARGET_DIR"
  by (simp add: eval_defs)

lemma sample_any_match: "any_match (src_tree sample_tree) TARGET_DIR"
  by (simp add: eval_defs)

lemma sample_reports: "reports (scanned_files (src_tree sample_tree) TARGET_DIR) =
   [found_header (py ''src/b.py''), arrow_line (py ''# total(a, b)''),
    found_header (py ''src/lib/c.js''),
    arrow_line (py ''# see formula: total(a,b) explained'')]"
  by (simp add: eval_defs)

lemma clean_readable: "readable (src_tree clean_tree) TARGET_DIR"
  by (simp add: eval_defs)

lemma clean_any_match: "\<not> any_match (src_tree clean_tree) TARGET_DIR"
  by (simp add: eval_defs)

lemma bad_not_readable:
  "\<not> readable (src_tree (Directory [(py ''a.py'', text_file ''# f()''),
                                       (py ''bad.py'', RegFile (Inl OSError))])) TARGET_DIR"
  by (simp add: eval_defs)

lemma three_lines_read: "readlines three_lines =
     [py ''  # g()  '' @ [LF], py ''x = 1'' @ [LF], [0x09] @ py ''# h(1)'' @ [LF]]"
    by (simp add: eval_defs three_lines_def)

lemma three_lines_first: "re_match commented_code_pattern (py ''  # g()  '' @ [LF])"
    by (simp add: eval_defs)

lemma three_lines_second: "\<not> re_match commented_code_pattern (py ''x = 1'' @ [LF])"
    by (simp add: eval_defs)

lemma three_lines_third: "re_match commented_code_pattern ([0x09] @ py ''# h(1)'' @ [LF])"
    by (simp add: eval_defs)

lemma three_lines_matching: "{i. i < length (readlines three_lines) \<and>
              re_match commented_code_pattern (readlines three_lines ! i)} = {0, 2}"
proof (rule set_eqI)
  fix i :: nat
  consider "i = 0" | "i = 1" | "i = 2" | "3 \<le> i" by arith
  then show "i \<in> {i. i < length (readlines three_lines) \<and>
              re_match commented_code_pattern (readlines three_lines ! i)} \<longleftrightarrow> i \<in> {0, 2}"
  proof cases
    case 1 then show ?thesis unfolding three_lines_read using three_lines_first by simp
  next
    case 2 then show ?thesis unfolding three_lines_read using three_lines_second by simp
  next
    case 3 then show ?thesis unfolding three_lines_read using three_lines_third by simp
  next
    case 4 then show ?thesis unfolding three_lines_read by simp
  qed
qed

lemma three_lines_strip_first: "strip (py ''  # g()  '' @ [LF]) = py ''# g()''"
  by (simp add: eval_defs)

lemma three_lines_strip_third: "strip ([0x09] @ py ''# h(1)'' @ [LF]) = py ''# h(1)''"
  by (simp add: eval_defs)

lemma three_lines_collected: "collect_commented (readlines three_lines) [] = [py ''# g()'', py ''# h(1)'']"
  unfolding three_lines_read using three_lines_first three_lines_second three_lines_third three_lines_strip_first three_lines_strip_third by simp

section \<open>Facts on lists, suffixes and the exit\<close>

lemma filter_by_index:
  "filter P xs = map (\<lambda>i. xs ! i) (filter (\<lambda>i. P (xs ! i)) [0..<length xs])"
proof (induction xs rule: rev_induct)
  case Nil
  show ?case by simp
next
  case (snoc x xs)
  have "filter (\<lambda>i. P ((xs @ [x]) ! i)) [0..<length xs] = filter (\<lambda>i. P (xs ! i)) [0..<length xs]"
    by (rule filter_cong) (simp_all add: nth_append)
  moreover have "map (\<lambda>i. (xs @ [x]) ! i) (filter (\<lambda>i. P (xs ! i)) [0..<length xs]) =
      map (\<lambda>i. xs ! i) (filter (\<lambda>i. P (xs ! i)) [0..<length xs])"
    by (rule map_cong) (simp_all add: nth_append)
  ultimately show ?case using snoc by simp
qed

lemma endswith_iff: "endswith s suffix \<longleftrightarrow> (\<exists>stem. s = stem @ suffix)"
proof
  assume "endswith s suffix"
  then have "s = take (length s - length suffix) s @ suffix"
    unfolding endswith_def by (metis append_take_drop_id)
  then show "\<exists>stem. s = stem @ suffix" ..
next
  assume "\<exists>stem. s = stem @ suffix"
  then show "endswith s suffix" by (auto simp: endswith_def)
qed

lemma main_exit_returns:
  "snd (main fs out) = Exit n \<Longrightarrow>
   \<exists>b. snd (scan_directory fs TARGET_DIR (print scanning_banner out)) = Inr b"
  by (auto simp: main_def split: prod.splits sum.splits if_splits)

lemma main_not_readable:
  assumes "\<not> readable fs TARGET_DIR"
  shows "\<exists>e. snd (main fs out) = Uncaught e"
proof (cases "snd (main fs out)")
  case (Exit n)
  then have "readable fs TARGET_DIR"
    using main_exit_returns scan_directory_returns_readable by blast
  then show ?thesis using assms by simp
next
  case (Uncaught e)
  then show ?thesis by blast
qed

section \<open>A root that is not a directory\<close>

text \<open>
  Claim C1, as stated, fails: \<open>os.walk\<close> ignores the error of \<open>scandir\<close> on its
  argument, so with a root that does not exist, or that is a file, the walk yields
  nothing, \<open>scan_directory\<close> returns \<open>False\<close> and the run prints the success banner and
  exits with status 0.
\<close>

theorem missing_root_exits_0:
  "scan_directory (\<lambda>p. None) TARGET_DIR [] = ([], Inr False) \<and>
   main (\<lambda>p. None) [] = ([scanning_banner, clean_banner], Exit 0) \<and>
   scan_directory (src_tree (text_file ''x = 1'')) TARGET_DIR [] = ([], Inr False) \<and>
   main (src_tree (text_file ''x = 1'')) [] = ([scanning_banner, clean_banner], Exit 0)"
  by (simp add: scan_directory_def walk_def main_def print_def src_tree_def text_file_def)

text \<open>
  Claim C1, amended. If the root directory passed to \<open>scan_directory\<close> does not exist or
  is not a directory, no file is visited: \<open>scan_directory\<close> prints nothing and returns
  \<open>False\<close> without error, and the run on such a root prints the start banner and the
  success banner and exits with status 0.
\<close>

theorem no_directory_scans_nothing:
  assumes "fs directory = None \<or> (\<exists>f. fs directory = Some (RegFile f))"
  shows "scan_directory fs directory out = (out, Inr False) \<and>
         (directory = TARGET_DIR \<longrightarrow>
            main fs out = (out @ [scanning_banner, clean_banner], Exit 0))"
proof -
  have "walk fs directory = []"
    using assms by (auto simp: walk_def)
  then have "\<And>out. scan_directory fs directory out = (out, Inr False)"
    by (simp add: scan_directory_def)
  then show ?thesis by (auto simp: main_def print_def)
qed

theorem no_directory_scans_nothing_witness:
  "scan_directory (src_tree (RegFile (Inl OSError))) TARGET_DIR [py ''earlier''] =
     ([py ''earlier''], Inr False) \<and>
   main (src_tree (RegFile (Inl OSError))) [py ''earlier''] =
     ([py ''earlier'', scanning_banner, clean_banner], Exit 0)"
proof -
  have "src_tree (RegFile (Inl OSError)) TARGET_DIR = None \<or>
        (\<exists>f. src_tree (RegFile (Inl OSError)) TARGET_DIR = Some (RegFile f))"
    by (simp add: src_tree_def)
  with no_directory_scans_nothing
      [of "src_tree (RegFile (Inl OSError))" TARGET_DIR "[py ''earlier'']"]
  show ?thesis by simp
qed

section \<open>The detection test\<close>

text \<open>
  Claim C2, as stated, fails: the pattern has \<open>\s*\<close> between the identifier characters
  and \<open>(\<close>, so the line \<open># total (a, b)\<close> matches, while no \<open>(\<close> of it comes right
  after an identifier character.
\<close>

theorem gap_before_paren_matches:
  "readlines (py ''# total (a, b)'') = [py ''# total (a, b)''] \<and>
   re_match commented_code_pattern (py ''# total (a, b)'') \<and>
   \<not> spec_line_match (py ''# total (a, b)'')"
proof -
  have "\<not> word_before_paren (py ''# total (a, b)'')"
    by (simp add: py_def is_word_def)
  then have "\<not> spec_line_match (py ''# total (a, b)'')"
    using spec_line_match_word_before_paren by blast
  moreover have "re_match commented_code_pattern (py ''# total (a, b)'')"
    by (simp add: eval_defs)
  moreover have "readlines (py ''# total (a, b)'') = [py ''# total (a, b)'']"
    by (simp add: eval_defs)
  ultimately show ?thesis by simp
qed

text \<open>
  Claim C2, amended. For every line that \<open>readlines\<close> gives, the detection test of
  \<open>scan_file\<close> matches exactly the lines in which, from the start, after zero or more
  whitespace characters, a \<open>#\<close> appears, then any characters, then one or more identifier
  characters, then zero or more whitespace characters, then \<open>(\<close>, then any characters, then
  a \<open>)\<close> anywhere later in the line.
\<close>

theorem pattern_matches_gap_lines:
  assumes "line \<in> set (readlines text)"
  shows "re_match commented_code_pattern line \<longleftrightarrow> gap_line_match line"
proof
  assume "re_match commented_code_pattern line"
  then obtain p rest where l: "line = p @ rest" and "p \<in> lang commented_code_pattern"
    unfolding re_match_lang by blast
  then obtain ws any1 ident gap any2 where
    p: "p = ws @ [of_char CHR ''#''] @ any1 @ ident @ gap @ [of_char CHR ''(''] @ any2 @
            [of_char CHR '')'']" and
    parts: "list_all isspace ws" "ident \<noteq> []" "list_all is_word ident" "list_all isspace gap"
    unfolding lang_commented_code_pattern by blast
  have "line = ws @ [of_char CHR ''#''] @ any1 @ ident @ gap @ [of_char CHR ''(''] @ any2 @
               [of_char CHR '')''] @ rest"
    unfolding l p by simp
  then show "gap_line_match line"
    unfolding gap_line_match_def using parts by blast
next
  assume "gap_line_match line"
  then obtain ws any1 ident gap any2 rest where
    l: "line = ws @ [of_char CHR ''#''] @ any1 @ ident @ gap @ [of_char CHR ''(''] @ any2 @
               [of_char CHR '')''] @ rest" and
    parts: "list_all isspace ws" "ident \<noteq> []" "list_all is_word ident" "list_all isspace gap"
    unfolding gap_line_match_def by blast
  have nl: "LF \<notin> set (butlast line)"
    using assms by (rule readlines_LF)
  have "line = (ws @ [of_char CHR ''#'']) @ any1 @
               (ident @ gap @ [of_char CHR ''(''] @ any2 @ [of_char CHR '')''] @ rest)"
    using l by simp
  with nl have a1: "list_all (\<lambda>c. c \<noteq> LF) any1"
    using no_LF_before_last parts(2) by (metis append_is_Nil_conv)
  have "line = (ws @ [of_char CHR ''#''] @ any1 @ ident @ gap @ [of_char CHR ''('']) @ any2 @
               ([of_char CHR '')''] @ rest)"
    using l by simp
  with nl have a2: "list_all (\<lambda>c. c \<noteq> LF) any2"
    using no_LF_before_last by (metis append_is_Nil_conv not_Cons_self2)
  have "ws @ [of_char CHR ''#''] @ any1 @ ident @ gap @ [of_char CHR ''(''] @ any2 @
               [of_char CHR '')''] \<in> lang commented_code_pattern"
    unfolding lang_commented_code_pattern using parts a1 a2 by blast
  then show "re_match commented_code_pattern line"
    unfolding re_match_lang using l by (metis append.assoc)
qed

theorem pattern_matches_gap_lines_witness:
  "(py ''    # total (a, b)'' @ [LF])
     \<in> set (readlines (py ''x = 1'' @ [LF] @ py ''    # total (a, b)'' @ [LF])) \<and>
   re_match commented_code_pattern (py ''    # total (a, b)'' @ [LF]) \<and>
   gap_line_match (py ''    # total (a, b)'' @ [LF])"
proof -
  have 1: "(py ''    # total (a, b)'' @ [LF])
     \<in> set (readlines (py ''x = 1'' @ [LF] @ py ''    # total (a, b)'' @ [LF]))"
    by (simp add: eval_defs)
  have 2: "re_match commented_code_pattern (py ''    # total (a, b)'' @ [LF])"
    by (simp add: eval_defs)
  show ?thesis
    using 1 2 pattern_matches_gap_lines [OF 1] by simp
qed

section \<open>What \<open>scan_file\<close> returns and prints\<close>

text \<open>
  Claim C3, as stated, fails: the value that \<open>scan_file\<close> returns is a boolean, not the
  sequence of matched lines. A file with the one matched line \<open># f()\<close> and a file with
  the two matched lines \<open># g()\<close> and \<open># h()\<close> both return \<open>True\<close>.
\<close>

theorem scan_file_returns_boolean:
  "snd (scan_file (py ''a.py'') (Inr (py ''# f()'')) []) = Inr True \<and>
   snd (scan_file (py ''a.py'') (Inr (py ''# g()'' @ [LF] @ py ''  # h()'')) []) = Inr True \<and>
   collect_commented (readlines (py ''# f()'')) [] = [py ''# f()''] \<and>
   collect_commented (readlines (py ''# g()'' @ [LF] @ py ''  # h()'')) [] =
     [py ''# g()'', py ''# h()'']"
  by (simp add: eval_defs)

text \<open>
  Claim C3, amended. For every file that can be read, \<open>scan_file\<close> collects the ordered
  sequence of that file's matched lines, trimmed of surrounding whitespace; it returns
  \<open>True\<close> when that sequence is not empty, after printing a header with the path and
  each collected line behind an arrow, and it returns \<open>False\<close> and prints nothing when
  the sequence is empty, that is when the file is clean.
\<close>

theorem scan_file_prints_and_returns:
  "collect_commented (readlines text) [] =
     map strip (filter (re_match commented_code_pattern) (readlines text)) \<and>
   scan_file filepath (Inr text) out =
     (if collect_commented (readlines text) [] = [] then out
      else out @ found_header filepath # map arrow_line (collect_commented (readlines text) []),
      Inr (collect_commented (readlines text) [] \<noteq> []))"
  by (simp add: scan_file_def collect_commented_acc print_commented_append print_def)

theorem scan_file_prints_and_returns_witness:
  "scan_file (py ''src/b.py'') (Inr (py ''    # total(a, b)'' @ [LF] @ py ''y = 2'' @ [LF])) [] =
     ([found_header (py ''src/b.py''), arrow_line (py ''# total(a, b)'')], Inr True) \<and>
   scan_file (py ''src/a.py'') (Inr (py ''x = 1'')) [] = ([], Inr False)"
proof -
  have 1: "collect_commented
             (readlines (py ''    # total(a, b)'' @ [LF] @ py ''y = 2'' @ [LF])) [] =
      [py ''# total(a, b)'']"
    by (simp add: eval_defs)
  have 2: "collect_commented (readlines (py ''x = 1'')) [] = []"
    by (simp add: eval_defs)
  show ?thesis
    using scan_file_prints_and_returns
        [of "py ''    # total(a, b)'' @ [LF] @ py ''y = 2'' @ [LF]" "py ''src/b.py''" "[]"]
      scan_file_prints_and_returns [of "py ''x = 1''" "py ''src/a.py''" "[]"]
    unfolding 1 2 by simp
qed

section \<open>What \<open>scan_directory\<close> returns\<close>

text \<open>
  Claim C4. For every directory tree, the value that \<open>scan_directory\<close> returns is \<open>True\<close>
  if and only if at least one scanned file (a file whose name ends in a recognised
  suffix) has at least one line that matches the detection pattern; and it does return,
  with that value, whenever every scanned file can be read.
\<close>

theorem scan_directory_true_iff_match:
  "(snd (scan_directory fs directory out) = Inr b \<longrightarrow> b = any_match fs directory) \<and>
   (readable fs directory \<longrightarrow>
      snd (scan_directory fs directory out) = Inr (any_match fs directory))"
  using scan_directory_returns_readable [of fs directory out b]
  by (auto simp: scan_directory_all_readable)

theorem scan_directory_true_iff_match_witness:
  "readable (src_tree sample_tree) TARGET_DIR \<and>
   any_match (src_tree sample_tree) TARGET_DIR \<and>
   snd (scan_directory (src_tree sample_tree) TARGET_DIR []) = Inr True \<and>
   readable (src_tree clean_tree) TARGET_DIR \<and>
   \<not> any_match (src_tree clean_tree) TARGET_DIR \<and>
   snd (scan_directory (src_tree clean_tree) TARGET_DIR []) = Inr False"
  using sample_readable sample_any_match clean_readable clean_any_match
    scan_directory_true_iff_match [of "src_tree sample_tree" TARGET_DIR "[]" True]
    scan_directory_true_iff_match [of "src_tree clean_tree" TARGET_DIR "[]" False]
  by simp

section \<open>The exit code\<close>

text \<open>
  Claim C5, as stated, fails: with a scanned file that cannot be decoded and no match
  anywhere, the run does not end with exit code 0. It ends in an uncaught exception, for
  which the interpreter gives the process the exit code 1, the code of a found match.
\<close>

theorem unreadable_file_no_exit_0:
  "\<not> any_match (src_tree (Directory [(py ''bad.py'', RegFile (Inl UnicodeDecodeError))]))
       TARGET_DIR \<and>
   main (src_tree (Directory [(py ''bad.py'', RegFile (Inl UnicodeDecodeError))])) [] =
     ([scanning_banner], Uncaught UnicodeDecodeError) \<and>
   process_exit_code
     (snd (main (src_tree (Directory [(py ''bad.py'', RegFile (Inl UnicodeDecodeError))])) []))
     = 1"
  by (simp add: eval_defs)

text \<open>
  Claim C5, amended. When every scanned file can be opened and decoded, the run ends
  through \<open>sys.exit\<close>, with exit code 0 exactly when no scanned file has a match and with
  exit code 1 exactly when at least one has; \<open>sys.exit\<close> is called with no other code. When
  a scanned file cannot be read, the run ends in an uncaught exception instead.
\<close>

theorem exit_code_when_readable:
  "(readable fs TARGET_DIR \<longrightarrow>
      snd (main fs out) = Exit (if any_match fs TARGET_DIR then 1 else 0)) \<and>
   (\<not> readable fs TARGET_DIR \<longrightarrow> (\<exists>e. snd (main fs out) = Uncaught e)) \<and>
   (snd (main fs out) = Exit n \<longrightarrow>
      (n = 0 \<and> \<not> any_match fs TARGET_DIR) \<or> (n = 1 \<and> any_match fs TARGET_DIR))"
proof -
  have total: "readable fs TARGET_DIR \<Longrightarrow>
      snd (main fs out) = Exit (if any_match fs TARGET_DIR then 1 else 0)"
    by (simp add: main_def scan_directory_all_readable)
  have "readable fs TARGET_DIR" if "snd (main fs out) = Exit n"
    using main_exit_returns [OF that] scan_directory_returns_readable by blast
  then show ?thesis using total main_not_readable [of fs out] by auto
qed

theorem exit_code_when_readable_witness:
  "readable (src_tree sample_tree) TARGET_DIR \<and>
   any_match (src_tree sample_tree) TARGET_DIR \<and>
   snd (main (src_tree sample_tree) []) = Exit 1 \<and>
   readable (src_tree clean_tree) TARGET_DIR \<and>
   \<not> any_match (src_tree clean_tree) TARGET_DIR \<and>
   snd (main (src_tree clean_tree) []) = Exit 0 \<and>
   \<not> readable (src_tree (Directory [(py ''a.py'', text_file ''# f()''),
                                       (py ''bad.py'', RegFile (Inl OSError))])) TARGET_DIR \<and>
   (\<exists>e. snd (main (src_tree (Directory [(py ''a.py'', text_file ''# f()''),
                                          (py ''bad.py'', RegFile (Inl OSError))])) [])
          = Uncaught e)"
proof -
  have "snd (main (src_tree sample_tree) []) = Exit 1"
    using exit_code_when_readable [of "src_tree sample_tree" "[]" 1]
      sample_readable sample_any_match
    by (simp del: One_nat_def)
  moreover have "snd (main (src_tree clean_tree) []) = Exit 0"
    using exit_code_when_readable [of "src_tree clean_tree" "[]" 0]
      clean_readable clean_any_match
    by simp
  moreover have "\<exists>e. snd (main (src_tree (Directory [(py ''a.py'', text_file ''# f()''),
                                          (py ''bad.py'', RegFile (Inl OSError))])) [])
          = Uncaught e"
    using exit_code_when_readable
      [of "src_tree (Directory [(py ''a.py'', text_file ''# f()''),
                                (py ''bad.py'', RegFile (Inl OSError))])" "[]" 0]
      bad_not_readable
    by blast
  ultimately show ?thesis
    using sample_readable sample_any_match clean_readable clean_any_match bad_not_readable
    by simp
qed

section \<open>Files with an unrecognised suffix\<close>

text \<open>
  Claim C6. A file whose name does not end in \<open>.py\<close>, \<open>.js\<close> or \<open>.ts\<close> is never opened
  or scanned: two trees that differ only in what such files hold, or in whether they can
  be read at all, give the same output and the same result, for \<open>scan_directory\<close> and
  for the whole run.
\<close>

theorem unrecognised_files_ignored:
  assumes "map_option blank (fs directory) = map_option blank (fs' directory)"
  shows "scan_directory fs directory out = scan_directory fs' directory out \<and>
         (directory = TARGET_DIR \<longrightarrow> main fs out = main fs' out)"
proof -
  have "\<And>out. scan_directory fs directory out = scan_directory fs' directory out"
    using scanned_files_blank [of fs directory fs'] assms by (simp add: scan_directory_paths)
  then show ?thesis by (auto simp: main_def)
qed

theorem unrecognised_files_ignored_witness:
  "main (src_tree (Directory [(py ''d.txt'', text_file ''# total(a,b)'')])) [] =
     ([scanning_banner, clean_banner], Exit 0) \<and>
   main (src_tree (Directory [(py ''d.txt'', RegFile (Inl UnicodeDecodeError))])) [] =
     ([scanning_banner, clean_banner], Exit 0)"
proof -
  let ?fs = "src_tree (Directory [(py ''d.txt'', text_file ''# total(a,b)'')])"
  let ?fs' = "src_tree (Directory [(py ''d.txt'', RegFile (Inl UnicodeDecodeError))])"
  have same: "map_option blank (?fs TARGET_DIR) = map_option blank (?fs' TARGET_DIR)"
    by (simp add: eval_defs)
  have "main ?fs [] = ([scanning_banner, clean_banner], Exit 0)"
    by (simp add: eval_defs)
  then show ?thesis
    using same unrecognised_files_ignored [of ?fs TARGET_DIR ?fs' "[]"] by simp
qed

section \<open>The order of the matched lines\<close>

text \<open>
  Claim C7. The matched lines that \<open>scan_file\<close> collects are the lines of the file at
  the positions of the matching lines, taken in increasing position, so they appear in
  the order of the file; and each is trimmed: the line is the collected string with
  whitespace before and after it, and the collected string is not empty and neither
  starts nor ends with whitespace.
\<close>

theorem matched_lines_in_file_order:
  "\<exists>idx. sorted_wrt (<) idx \<and>
     set idx = {i. i < length (readlines text) \<and>
                   re_match commented_code_pattern (readlines text ! i)} \<and>
     collect_commented (readlines text) [] = map (\<lambda>i. strip (readlines text ! i)) idx \<and>
     (\<forall>i \<in> set idx. \<exists>pre post.
        readlines text ! i = pre @ strip (readlines text ! i) @ post \<and>
        list_all isspace pre \<and> list_all isspace post \<and>
        strip (readlines text ! i) \<noteq> [] \<and>
        \<not> isspace (hd (strip (readlines text ! i))) \<and>
        \<not> isspace (last (strip (readlines text ! i))))"
proof -
  let ?ls = "readlines text"
  let ?idx = "filter (\<lambda>i. re_match commented_code_pattern (?ls ! i)) [0..<length ?ls]"
  have "sorted_wrt (<) ?idx"
    by (rule sorted_wrt_filter) (rule sorted_wrt_upt)
  moreover have "set ?idx = {i. i < length ?ls \<and> re_match commented_code_pattern (?ls ! i)}"
    by auto
  moreover have "collect_commented ?ls [] = map (\<lambda>i. strip (?ls ! i)) ?idx"
    using filter_by_index [of "re_match commented_code_pattern" ?ls]
    by (simp add: collect_commented_acc o_def)
  moreover have "\<forall>i \<in> set ?idx. \<exists>pre post.
        ?ls ! i = pre @ strip (?ls ! i) @ post \<and>
        list_all isspace pre \<and> list_all isspace post \<and> strip (?ls ! i) \<noteq> [] \<and>
        \<not> isspace (hd (strip (?ls ! i))) \<and> \<not> isspace (last (strip (?ls ! i)))"
    using matched_line_trimmed by simp
  ultimately show ?thesis by blast
qed

theorem matched_lines_in_file_order_witness:
  "readlines three_lines =
     [py ''  # g()  '' @ [LF], py ''x = 1'' @ [LF], [0x09] @ py ''# h(1)'' @ [LF]] \<and>
   collect_commented (readlines three_lines) [] = [py ''# g()'', py ''# h(1)''] \<and>
   (\<exists>idx. sorted_wrt (<) idx \<and> set idx = {0, 2} \<and>
      [py ''# g()'', py ''# h(1)''] = map (\<lambda>i. strip (readlines three_lines ! i)) idx)"
proof -
  from matched_lines_in_file_order [of three_lines] obtain idx where
    i1: "sorted_wrt (<) idx" and
    i2: "set idx = {i. i < length (readlines three_lines) \<and>
                   re_match commented_code_pattern (readlines three_lines ! i)}" and
    i3: "collect_commented (readlines three_lines) [] =
       map (\<lambda>i. strip (readlines three_lines ! i)) idx"
    by (elim exE conjE)
  have a: "set idx = {0, 2}"
    using i2 unfolding three_lines_matching .
  have b: "[py ''# g()'', py ''# h(1)''] = map (\<lambda>i. strip (readlines three_lines ! i)) idx"
    using i3 unfolding three_lines_collected .
  have "sorted_wrt (<) idx \<and> set idx = {0, 2} \<and>
      [py ''# g()'', py ''# h(1)''] = map (\<lambda>i. strip (readlines three_lines ! i)) idx"
    using i1 a b by (intro conjI)
  then have "\<exists>idx. sorted_wrt (<) idx \<and> set idx = {0, 2} \<and>
      [py ''# g()'', py ''# h(1)''] = map (\<lambda>i. strip (readlines three_lines ! i)) idx"
    by (rule exI)
  with three_lines_read three_lines_collected show ?thesis by (intro conjI)
qed

section \<open>Running twice\<close>

text \<open>
  Claim C8. Running the scan twice on an unchanged directory tree produces identical
  printed output and identical exit code. A run leaves the file system as it found it; a
  second run, started in the world the first one left, ends with the same status and
  appends to standard output exactly what the first run appended.
\<close>

theorem run_twice_same:
  assumes "run w = (w1, st1)" and "run w1 = (w2, st2)"
  shows "disk w1 = disk w \<and> st2 = st1 \<and>
         (\<exists>p. printed w1 = printed w @ p \<and> printed w2 = printed w1 @ p)"
proof -
  obtain p st where m: "\<And>out. main (disk w) out = (out @ p, st)"
    using main_appends by blast
  have 1: "w1 = w\<lparr>printed := printed w @ p\<rparr>" "st1 = st"
    using assms(1) m by (simp_all add: run_def)
  then have 2: "w2 = w1\<lparr>printed := printed w1 @ p\<rparr>" "st2 = st"
    using assms(2) m by (simp_all add: run_def)
  show ?thesis using 1 2 by simp
qed

theorem run_twice_same_witness:
  "snd (run \<lparr>disk = src_tree (Directory [(py ''b.py'', text_file ''    # total(a, b)'')]),
             printed = []\<rparr>) = Exit 1 \<and>
   snd (run (fst (run \<lparr>disk = src_tree (Directory [(py ''b.py'', text_file ''    # total(a, b)'')]),
                        printed = []\<rparr>))) = Exit 1 \<and>
   printed (fst (run (fst (run
       \<lparr>disk = src_tree (Directory [(py ''b.py'', text_file ''    # total(a, b)'')]),
        printed = []\<rparr>)))) =
   printed (fst (run \<lparr>disk = src_tree (Directory [(py ''b.py'', text_file ''    # total(a, b)'')]),
                     printed = []\<rparr>)) @
   printed (fst (run \<lparr>disk = src_tree (Directory [(py ''b.py'', text_file ''    # total(a, b)'')]),
                     printed = []\<rparr>))"
proof -
  define w :: world where
    "w = \<lparr>disk = src_tree (Directory [(py ''b.py'', text_file ''    # total(a, b)'')]),
          printed = []\<rparr>"
  have p0: "printed w = []" by (simp add: w_def)
  have s0: "snd (run w) = Exit 1" by (simp add: eval_defs w_def)
  have h1: "run w = (fst (run w), snd (run w))" by simp
  have h2: "run (fst (run w)) = (fst (run (fst (run w))), snd (run (fst (run w))))" by simp
  from run_twice_same [OF h1 h2] obtain p where
    "snd (run (fst (run w))) = snd (run w)" and
    "printed (fst (run w)) = printed w @ p" and
    "printed (fst (run (fst (run w)))) = printed (fst (run w)) @ p"
    by blast
  with p0 s0 show ?thesis unfolding w_def by simp
qed

section \<open>No short-circuit\<close>

text \<open>
  Claim C9. \<open>scan_directory\<close> does not stop at the first offending file: when it
  returns, what it has printed is the report of every scanned file under the root, in the
  order of the walk, so the header and the matched lines of every offending file are
  printed; and it does return whenever every scanned file can be read.
\<close>

theorem scan_directory_scans_all:
  "(snd (scan_directory fs directory out) = Inr b \<longrightarrow>
      fst (scan_directory fs directory out) = out @ reports (scanned_files fs directory)) \<and>
   (readable fs directory \<longrightarrow>
      fst (scan_directory fs directory out) = out @ reports (scanned_files fs directory) \<and>
      (\<exists>b. snd (scan_directory fs directory out) = Inr b))"
  using scan_directory_returns_readable [of fs directory out b]
  by (auto simp: scan_directory_all_readable)

theorem scan_directory_scans_all_witness:
  "readable (src_tree sample_tree) TARGET_DIR \<and>
   fst (scan_directory (src_tree sample_tree) TARGET_DIR []) =
     [found_header (py ''src/b.py''), arrow_line (py ''# total(a, b)''),
      found_header (py ''src/lib/c.js''),
      arrow_line (py ''# see formula: total(a,b) explained'')]"
  using sample_readable sample_reports
    scan_directory_scans_all [of "src_tree sample_tree" TARGET_DIR "[]" True]
  by simp

section \<open>The suffix test\<close>

text \<open>
  Claim C10. The suffix test is a case-sensitive test of the end of the name: a name
  qualifies exactly when it ends in \<open>.py\<close>, \<open>.js\<close> or \<open>.ts\<close> as written. \<open>A.PY\<close>
  and \<open>b.Js\<close> do not qualify, and files with these names are neither opened nor scanned,
  whatever they hold.
\<close>

theorem suffix_test_case_sensitive:
  "(endswith_any name suffixes \<longleftrightarrow>
      (\<exists>stem. name = stem @ py ''.py'' \<or> name = stem @ py ''.js'' \<or> name = stem @ py ''.ts'')) \<and>
   \<not> endswith_any (py ''A.PY'') suffixes \<and>
   \<not> endswith_any (py ''b.Js'') suffixes \<and>
   scan_files root [(py ''A.PY'', f), (py ''b.Js'', g)] has_error out = (out, Inr has_error)"
proof -
  have 1: "endswith_any name suffixes \<longleftrightarrow>
      (\<exists>stem. name = stem @ py ''.py'' \<or> name = stem @ py ''.js'' \<or> name = stem @ py ''.ts'')"
    unfolding endswith_any_def suffixes_def by (auto simp: endswith_iff)
  have 2: "\<not> endswith_any (py ''A.PY'') suffixes" "\<not> endswith_any (py ''b.Js'') suffixes"
    by (simp_all add: eval_defs)
  show ?thesis using 1 2 by simp
qed

end
